theory Spec2Isabelle
  imports Main "HOL-Library.Word"
begin

unbundle bit_operations_syntax

section \<open>Machine types and failures\<close>

text \<open>
  Addresses are 64-bit machine words, \<open>0\<close> is \<open>nullptr\<close>; \<open>unsigned\<close> is a 32-bit
  word and \<open>size_t\<close> a 64-bit word.  An \<open>assert\<close> that fails and an access through a
  pointer that names no live object are results of their own.
\<close>

type_synonym ptr = "64 word"
type_synonym unsigned = "32 word"
type_synonym size_t = "64 word"

datatype error = AssertionFailure | InvalidAccess

definition bindE :: "error + 'a \<Rightarrow> ('a \<Rightarrow> error + 'b) \<Rightarrow> error + 'b" where
  "bindE m f = (case m of Inl e \<Rightarrow> Inl e | Inr x \<Rightarrow> f x)"

section \<open>The packed pointer/integer pair\<close>

text \<open>
  Modelled from the spec: \<open>llvm::PointerIntPair\<close> (header \<open>llvm/ADT/PointerIntPair.h\<close>,
  not among the sources).  A handle is a pair of an identity reference and a result index
  bounded by a fixed bit width, it fits into one pointer-sized opaque value
  (\<open>getOpaqueValue\<close>), and \<open>PointerLikeTypeTraits<SILValue>\<close> leaves
  \<open>2 - ValueResultNumberBits\<close> low bits free: a \<open>ValueBase*\<close> has two free low bits and
  the integer sits in the highest of them.  Reading the integer masks it to its bits;
  storing it shifts it into place without a check of its own, so that the check of the
  range is the one the constructor of \<open>SILValue\<close> makes.
\<close>

definition ValueResultNumberBits :: nat where
  "ValueResultNumberBits = 1"

definition NumLowBitsAvailable :: nat where
  "NumLowBitsAvailable = 2"

definition PointerBitMask :: ptr where
  "PointerBitMask = NOT (push_bit NumLowBitsAvailable 1 - 1)"

definition IntShift :: nat where
  "IntShift = NumLowBitsAvailable - ValueResultNumberBits"

definition IntMask :: ptr where
  "IntMask = push_bit ValueResultNumberBits 1 - 1"

text \<open>An address whose \<open>NumLowBitsAvailable\<close> low bits are zero, as that of every object is.\<close>

definition ptr_aligned :: "ptr \<Rightarrow> bool" where
  "ptr_aligned p = (p AND (push_bit NumLowBitsAvailable 1 - 1) = 0)"

definition pip_getPointer :: "ptr \<Rightarrow> ptr" where
  "pip_getPointer v = v AND PointerBitMask"

definition pip_getInt :: "ptr \<Rightarrow> unsigned" where
  "pip_getInt v = ucast (drop_bit IntShift v AND IntMask)"

definition pip_setPointerAndInt :: "ptr \<Rightarrow> unsigned \<Rightarrow> ptr" where
  "pip_setPointerAndInt p i = p OR push_bit IntShift (ucast i)"

definition pip_setPointer :: "ptr \<Rightarrow> ptr \<Rightarrow> ptr" where
  "pip_setPointer v p = p OR (v AND NOT PointerBitMask)"

section \<open>SILValue: a handle on one result of a value\<close>

record SILValue =
  ValueAndResultNumber :: ptr

definition getDef :: "SILValue \<Rightarrow> ptr" where
  "getDef V = pip_getPointer (ValueAndResultNumber V)"

definition getResultNumber :: "SILValue \<Rightarrow> unsigned" where
  "getResultNumber V = pip_getInt (ValueAndResultNumber V)"

text \<open>The public constructor, with its assertion \<open>ResultNumber == getResultNumber()\<close>.\<close>

definition SILValue_ctor :: "ptr \<Rightarrow> unsigned \<Rightarrow> error + SILValue" where
  "SILValue_ctor V ResultNumber =
     (let this = \<lparr>ValueAndResultNumber = pip_setPointerAndInt V ResultNumber\<rparr>
      in if ResultNumber = getResultNumber this then Inr this else Inl AssertionFailure)"

definition getOpaqueValue :: "SILValue \<Rightarrow> ptr" where
  "getOpaqueValue V = ValueAndResultNumber V"

definition getFromOpaqueValue :: "ptr \<Rightarrow> SILValue" where
  "getFromOpaqueValue p = \<lparr>ValueAndResultNumber = p\<rparr>"

definition isValid :: "SILValue \<Rightarrow> bool" where
  "isValid V = (getDef V \<noteq> 0)"

text \<open>\<open>operator==\<close> and \<open>operator<\<close> compare the packed words.\<close>

definition SILValue_eq :: "SILValue \<Rightarrow> SILValue \<Rightarrow> bool" where
  "SILValue_eq LHS RHS = (ValueAndResultNumber LHS = ValueAndResultNumber RHS)"

definition SILValue_less :: "SILValue \<Rightarrow> SILValue \<Rightarrow> bool" where
  "SILValue_less LHS RHS = (getOpaqueValue LHS < getOpaqueValue RHS)"

text \<open>
  \<open>DenseMapInfo<SILValue>\<close>.  The hash of a \<open>ValueBase*\<close> belongs to LLVM and is a
  parameter here.
\<close>

definition DenseMapInfo_getHashValue :: "(ptr \<Rightarrow> unsigned) \<Rightarrow> SILValue \<Rightarrow> unsigned" where
  "DenseMapInfo_getHashValue ptr_hash V = ptr_hash (getDef V)"

definition DenseMapInfo_isEqual :: "SILValue \<Rightarrow> SILValue \<Rightarrow> bool" where
  "DenseMapInfo_isEqual LHS RHS = SILValue_eq LHS RHS"

section \<open>Sizing of tail-allocated operand lists\<close>

text \<open>\<open>sizeof(Operand)\<close> depends on the target and is a parameter.\<close>

definition TailAllocatedOperandList_getExtraSize :: "size_t \<Rightarrow> unsigned \<Rightarrow> size_t" where
  "TailAllocatedOperandList_getExtraSize sizeof_Operand numExtra =
     sizeof_Operand * ucast numExtra"

definition TailAllocatedOperandList0_getExtraSize :: "size_t \<Rightarrow> unsigned \<Rightarrow> size_t" where
  "TailAllocatedOperandList0_getExtraSize sizeof_Operand numExtra =
     sizeof_Operand * ucast (if numExtra > 0 then numExtra - 1 else 0)"

section \<open>The store: values and operands\<close>

text \<open>
  Of a \<open>ValueBase\<close> only the head of the use chain matters here.  An \<open>Operand**\<close> is the
  address of a pointer field: the \<open>FirstUse\<close> field of a value or the \<open>NextUse\<close> field of
  an operand.
\<close>

record ValueBase =
  FirstUse :: ptr

datatype slot = FirstUse_slot ptr | NextUse_slot ptr

record Operand =
  TheValue :: SILValue
  NextUse :: ptr
  Back :: "slot option"
  Owner :: ptr

record heap =
  valuebases :: "ptr \<rightharpoonup> ValueBase"
  operands :: "ptr \<rightharpoonup> Operand"

definition load_FirstUse :: "heap \<Rightarrow> ptr \<Rightarrow> error + ptr" where
  "load_FirstUse h v =
     (case valuebases h v of None \<Rightarrow> Inl InvalidAccess | Some vb \<Rightarrow> Inr (FirstUse vb))"

definition store_FirstUse :: "heap \<Rightarrow> ptr \<Rightarrow> ptr \<Rightarrow> error + heap" where
  "store_FirstUse h v p =
     (case valuebases h v of None \<Rightarrow> Inl InvalidAccess
      | Some vb \<Rightarrow> Inr (h\<lparr>valuebases := (valuebases h)(v \<mapsto> vb\<lparr>FirstUse := p\<rparr>)\<rparr>))"

definition load_Operand :: "heap \<Rightarrow> ptr \<Rightarrow> error + Operand" where
  "load_Operand h p =
     (case operands h p of None \<Rightarrow> Inl InvalidAccess | Some x \<Rightarrow> Inr x)"

definition store_NextUse :: "heap \<Rightarrow> ptr \<Rightarrow> ptr \<Rightarrow> error + heap" where
  "store_NextUse h p n =
     (case operands h p of None \<Rightarrow> Inl InvalidAccess
      | Some x \<Rightarrow> Inr (h\<lparr>operands := (operands h)(p \<mapsto> x\<lparr>NextUse := n\<rparr>)\<rparr>))"

definition store_Back :: "heap \<Rightarrow> ptr \<Rightarrow> slot option \<Rightarrow> error + heap" where
  "store_Back h p b =
     (case operands h p of None \<Rightarrow> Inl InvalidAccess
      | Some x \<Rightarrow> Inr (h\<lparr>operands := (operands h)(p \<mapsto> x\<lparr>Back := b\<rparr>)\<rparr>))"

definition store_TheValue :: "heap \<Rightarrow> ptr \<Rightarrow> SILValue \<Rightarrow> error + heap" where
  "store_TheValue h p V =
     (case operands h p of None \<Rightarrow> Inl InvalidAccess
      | Some x \<Rightarrow> Inr (h\<lparr>operands := (operands h)(p \<mapsto> x\<lparr>TheValue := V\<rparr>)\<rparr>))"

text \<open>Reading \<open>*Back\<close>.\<close>

definition load_slot :: "heap \<Rightarrow> slot \<Rightarrow> error + ptr" where
  "load_slot h b =
     (case b of
        FirstUse_slot v \<Rightarrow> load_FirstUse h v
      | NextUse_slot q \<Rightarrow> bindE (load_Operand h q) (\<lambda>x. Inr (NextUse x)))"

section \<open>Operand\<close>

text \<open>
  \<open>removeFromCurrent\<close>, statement by statement:
  \<open>if (!Back) return; (*Back)->NextUse = NextUse; if (NextUse) NextUse->Back = Back;\<close>
\<close>

definition removeFromCurrent :: "heap \<Rightarrow> ptr \<Rightarrow> error + heap" where
  "removeFromCurrent h this =
     bindE (load_Operand h this) (\<lambda>x.
       case Back x of
         None \<Rightarrow> Inr h
       | Some b \<Rightarrow>
           bindE (load_slot h b) (\<lambda>p.
           bindE (store_NextUse h p (NextUse x)) (\<lambda>h1.
           bindE (load_Operand h1 this) (\<lambda>x1.
             if NextUse x1 \<noteq> 0 then store_Back h1 (NextUse x1) (Back x1) else Inr h1))))"

text \<open>
  \<open>insertIntoCurrent\<close>:
  \<open>Back = &TheValue->FirstUse; NextUse = TheValue->FirstUse;
   if (NextUse) NextUse->Back = &NextUse; TheValue->FirstUse = this;\<close>
\<close>

definition insertIntoCurrent :: "heap \<Rightarrow> ptr \<Rightarrow> error + heap" where
  "insertIntoCurrent h this =
     bindE (load_Operand h this) (\<lambda>x.
     bindE (store_Back h this (Some (FirstUse_slot (getDef (TheValue x))))) (\<lambda>h1.
     bindE (load_FirstUse h1 (getDef (TheValue x))) (\<lambda>f.
     bindE (store_NextUse h1 this f) (\<lambda>h2.
     bindE (if f \<noteq> 0 then store_Back h2 f (Some (NextUse_slot this)) else Inr h2) (\<lambda>h3.
     store_FirstUse h3 (getDef (TheValue x)) this)))))"

text \<open>\<open>Operand(owner, theValue)\<close>, constructed in place at address \<open>this\<close>.\<close>

definition Operand_ctor :: "heap \<Rightarrow> ptr \<Rightarrow> ptr \<Rightarrow> SILValue \<Rightarrow> error + heap" where
  "Operand_ctor h this owner theValue =
     insertIntoCurrent
       (h\<lparr>operands := (operands h)(this \<mapsto>
            \<lparr>TheValue = theValue, NextUse = 0, Back = None, Owner = owner\<rparr>)\<rparr>) this"

definition Operand_get :: "heap \<Rightarrow> ptr \<Rightarrow> error + SILValue" where
  "Operand_get h this = bindE (load_Operand h this) (\<lambda>x. Inr (TheValue x))"

definition Operand_set :: "heap \<Rightarrow> ptr \<Rightarrow> SILValue \<Rightarrow> error + heap" where
  "Operand_set h this newValue =
     bindE (removeFromCurrent h this) (\<lambda>h1.
     bindE (store_TheValue h1 this newValue) (\<lambda>h2.
     insertIntoCurrent h2 this))"

text \<open>\<open>~Operand()\<close>: unlink, after which the object is gone.\<close>

definition Operand_dtor :: "heap \<Rightarrow> ptr \<Rightarrow> error + heap" where
  "Operand_dtor h this =
     bindE (removeFromCurrent h this) (\<lambda>h1.
       Inr (h1\<lparr>operands := (operands h1)(this := None)\<rparr>))"

text \<open>
  A run of in-place constructions, as the operand lists do for their buffers: each entry
  is the address, the owner and the target of one operand.
\<close>

fun construct_operands :: "heap \<Rightarrow> (ptr \<times> ptr \<times> SILValue) list \<Rightarrow> error + heap" where
  "construct_operands h [] = Inr h"
| "construct_operands h ((this, owner, theValue) # cs) =
     bindE (Operand_ctor h this owner theValue) (\<lambda>h'. construct_operands h' cs)"

section \<open>Iteration over all uses of a value\<close>

definition ValueBase_use_empty :: "heap \<Rightarrow> ptr \<Rightarrow> error + bool" where
  "ValueBase_use_empty h v = bindE (load_FirstUse h v) (\<lambda>f. Inr (f = 0))"

record ValueBaseUseIterator =
  Cur :: ptr

definition ValueBaseUseIterator_deref :: "ValueBaseUseIterator \<Rightarrow> ptr" where
  "ValueBaseUseIterator_deref it = Cur it"

definition ValueBaseUseIterator_incr ::
  "heap \<Rightarrow> ValueBaseUseIterator \<Rightarrow> error + ValueBaseUseIterator" where
  "ValueBaseUseIterator_incr h it =
     (if Cur it = 0 then Inl AssertionFailure
      else bindE (load_Operand h (Cur it)) (\<lambda>x. Inr \<lparr>Cur = NextUse x\<rparr>))"

definition ValueBaseUseIterator_eq ::
  "ValueBaseUseIterator \<Rightarrow> ValueBaseUseIterator \<Rightarrow> bool" where
  "ValueBaseUseIterator_eq lhs rhs = (Cur lhs = Cur rhs)"

definition ValueBase_use_begin :: "heap \<Rightarrow> ptr \<Rightarrow> error + ValueBaseUseIterator" where
  "ValueBase_use_begin h v = bindE (load_FirstUse h v) (\<lambda>f. Inr \<lparr>Cur = f\<rparr>)"

definition ValueBase_use_end :: "ValueBaseUseIterator" where
  "ValueBase_use_end = \<lparr>Cur = 0\<rparr>"

text \<open>
  Walking a range \<open>[it, e)\<close> and recording what the iterator points at.  The walk need
  not end (the chain may be cyclic): \<open>None\<close> is a walk that does not return.
\<close>

partial_function (option) ValueBaseUseIterator_walk ::
  "heap \<Rightarrow> ValueBaseUseIterator \<Rightarrow> ValueBaseUseIterator \<Rightarrow> ptr list
     \<Rightarrow> (error + ptr list) option" where
  "ValueBaseUseIterator_walk h it e acc =
     (if ValueBaseUseIterator_eq it e then Some (Inr acc)
      else case ValueBaseUseIterator_incr h it of
             Inl err \<Rightarrow> Some (Inl err)
           | Inr it' \<Rightarrow>
               ValueBaseUseIterator_walk h it' e (acc @ [ValueBaseUseIterator_deref it]))"

definition ValueBase_getUses :: "heap \<Rightarrow> ptr \<Rightarrow> (error + ptr list) option" where
  "ValueBase_getUses h v =
     (case ValueBase_use_begin h v of
        Inl err \<Rightarrow> Some (Inl err)
      | Inr b \<Rightarrow> ValueBaseUseIterator_walk h b ValueBase_use_end [])"

section \<open>Iteration over the uses of one result\<close>

record ValueUseIterator =
  CurAndResultNumber :: ptr

text \<open>
  The constructor's loop
  \<open>while (cur && cur->get().getResultNumber() != resultNumber) cur = cur->NextUse;\<close>
\<close>

partial_function (option) ValueUseIterator_skip ::
  "heap \<Rightarrow> ptr \<Rightarrow> unsigned \<Rightarrow> (error + ptr) option" where
  "ValueUseIterator_skip h cur resultNumber =
     (if cur \<noteq> 0 then
        (case load_Operand h cur of
           Inl err \<Rightarrow> Some (Inl err)
         | Inr x \<Rightarrow>
             if getResultNumber (TheValue x) \<noteq> resultNumber
             then ValueUseIterator_skip h (NextUse x) resultNumber
             else Some (Inr cur))
      else Some (Inr cur))"

definition ValueUseIterator_ctor ::
  "heap \<Rightarrow> ptr \<Rightarrow> unsigned \<Rightarrow> (error + ValueUseIterator) option" where
  "ValueUseIterator_ctor h cur resultNumber =
     (case ValueUseIterator_skip h cur resultNumber of
        None \<Rightarrow> None
      | Some (Inl err) \<Rightarrow> Some (Inl err)
      | Some (Inr c) \<Rightarrow>
          Some (Inr \<lparr>CurAndResultNumber = pip_setPointerAndInt c resultNumber\<rparr>))"

definition ValueUseIterator_deref :: "ValueUseIterator \<Rightarrow> ptr" where
  "ValueUseIterator_deref it = pip_getPointer (CurAndResultNumber it)"

text \<open>
  The loop of \<open>operator++\<close>:
  \<open>while ((next = next->NextUse)) { if (next->get().getResultNumber() == n) break; }\<close>
\<close>

partial_function (option) ValueUseIterator_advance ::
  "heap \<Rightarrow> ptr \<Rightarrow> unsigned \<Rightarrow> (error + ptr) option" where
  "ValueUseIterator_advance h next resultNumber =
     (case load_Operand h next of
        Inl err \<Rightarrow> Some (Inl err)
      | Inr x \<Rightarrow>
          if NextUse x \<noteq> 0 then
            (case load_Operand h (NextUse x) of
               Inl err \<Rightarrow> Some (Inl err)
             | Inr y \<Rightarrow>
                 if getResultNumber (TheValue y) = resultNumber
                 then Some (Inr (NextUse x))
                 else ValueUseIterator_advance h (NextUse x) resultNumber)
          else Some (Inr (NextUse x)))"

definition ValueUseIterator_incr ::
  "heap \<Rightarrow> ValueUseIterator \<Rightarrow> (error + ValueUseIterator) option" where
  "ValueUseIterator_incr h it =
     (if pip_getPointer (CurAndResultNumber it) = 0 then Some (Inl AssertionFailure)
      else case ValueUseIterator_advance h (pip_getPointer (CurAndResultNumber it))
                  (pip_getInt (CurAndResultNumber it)) of
             None \<Rightarrow> None
           | Some (Inl err) \<Rightarrow> Some (Inl err)
           | Some (Inr n) \<Rightarrow>
               Some (Inr \<lparr>CurAndResultNumber = pip_setPointer (CurAndResultNumber it) n\<rparr>))"

definition ValueUseIterator_eq :: "ValueUseIterator \<Rightarrow> ValueUseIterator \<Rightarrow> bool" where
  "ValueUseIterator_eq lhs rhs =
     (pip_getPointer (CurAndResultNumber lhs) = pip_getPointer (CurAndResultNumber rhs))"

definition SILValue_use_begin :: "heap \<Rightarrow> SILValue \<Rightarrow> (error + ValueUseIterator) option" where
  "SILValue_use_begin h V =
     (case load_FirstUse h (getDef V) of
        Inl err \<Rightarrow> Some (Inl err)
      | Inr f \<Rightarrow> ValueUseIterator_ctor h f (getResultNumber V))"

definition SILValue_use_end :: "heap \<Rightarrow> (error + ValueUseIterator) option" where
  "SILValue_use_end h = ValueUseIterator_ctor h 0 0"

definition SILValue_use_empty :: "heap \<Rightarrow> SILValue \<Rightarrow> (error + bool) option" where
  "SILValue_use_empty h V =
     (case SILValue_use_begin h V of
        None \<Rightarrow> None
      | Some (Inl err) \<Rightarrow> Some (Inl err)
      | Some (Inr b) \<Rightarrow>
          (case SILValue_use_end h of
             None \<Rightarrow> None
           | Some (Inl err) \<Rightarrow> Some (Inl err)
           | Some (Inr e) \<Rightarrow> Some (Inr (ValueUseIterator_eq b e))))"

partial_function (option) ValueUseIterator_walk ::
  "heap \<Rightarrow> ValueUseIterator \<Rightarrow> ValueUseIterator \<Rightarrow> ptr list
     \<Rightarrow> (error + ptr list) option" where
  "ValueUseIterator_walk h it e acc =
     (if ValueUseIterator_eq it e then Some (Inr acc)
      else case ValueUseIterator_incr h it of
             None \<Rightarrow> None
           | Some (Inl err) \<Rightarrow> Some (Inl err)
           | Some (Inr it') \<Rightarrow>
               ValueUseIterator_walk h it' e (acc @ [ValueUseIterator_deref it]))"

definition SILValue_getUses :: "heap \<Rightarrow> SILValue \<Rightarrow> (error + ptr list) option" where
  "SILValue_getUses h V =
     (case SILValue_use_begin h V of
        None \<Rightarrow> None
      | Some (Inl err) \<Rightarrow> Some (Inl err)
      | Some (Inr b) \<Rightarrow>
          (case SILValue_use_end h of
             None \<Rightarrow> None
           | Some (Inl err) \<Rightarrow> Some (Inl err)
           | Some (Inr e) \<Rightarrow> ValueUseIterator_walk h b e []))"

section \<open>Use chains\<close>

text \<open>
  \<open>use_chain h p us\<close>: following \<open>NextUse\<close> from \<open>p\<close> visits exactly the live operands
  \<open>us\<close>, in this order, and then reaches \<open>nullptr\<close>.
\<close>

fun use_chain :: "heap \<Rightarrow> ptr \<Rightarrow> ptr list \<Rightarrow> bool" where
  "use_chain h p [] = (p = 0)"
| "use_chain h p (x # xs) =
     (p = x \<and> x \<noteq> 0 \<and>
      (case operands h x of None \<Rightarrow> False | Some ox \<Rightarrow> use_chain h (NextUse ox) xs))"

text \<open>\<open>targets_result h i p\<close>: the operand at \<open>p\<close> is live and \<open>get().getResultNumber() == i\<close>.\<close>

definition targets_result :: "heap \<Rightarrow> unsigned \<Rightarrow> ptr \<Rightarrow> bool" where
  "targets_result h i p =
     (case Operand_get h p of Inl err \<Rightarrow> False | Inr V \<Rightarrow> getResultNumber V = i)"

text \<open>The pointer that starts a chain: its first operand, or \<open>nullptr\<close>.\<close>

definition chain_head :: "ptr list \<Rightarrow> ptr" where
  "chain_head us = (case us of [] \<Rightarrow> 0 | q # _ \<Rightarrow> q)"

text \<open>
  Every pointer that \<open>set\<close> dereferences names a live object: the operand itself, what
  \<open>*Back\<close> and \<open>NextUse\<close> point at when it is linked, the new target and the head of
  the new target's chain.
\<close>

definition Operand_set_pre :: "heap \<Rightarrow> ptr \<Rightarrow> SILValue \<Rightarrow> bool" where
  "Operand_set_pre h this newValue =
     (case operands h this of
        None \<Rightarrow> False
      | Some x \<Rightarrow>
          (case Back x of
             None \<Rightarrow> True
           | Some b \<Rightarrow>
               (case load_slot h b of Inl err \<Rightarrow> False | Inr p \<Rightarrow> operands h p \<noteq> None) \<and>
               (NextUse x = 0 \<or> operands h (NextUse x) \<noteq> None)) \<and>
          (case valuebases h (getDef newValue) of
             None \<Rightarrow> False
           | Some vb \<Rightarrow> FirstUse vb = 0 \<or> operands h (FirstUse vb) \<noteq> None))"

section \<open>Scenarios\<close>

text \<open>
  Two values, at \<open>0x1000\<close> and \<open>0x2000\<close>, without uses.  Scenario A has one operand
  at \<open>0x100\<close> on result 0 of the first value; scenario B has the operands \<open>e0\<close>,
  \<open>e1\<close>, \<open>e2\<close> at \<open>0x100\<close>, \<open>0x120\<close>, \<open>0x140\<close> on results 0, 1, 0 of the second
  value, constructed in this order; the last heap has a single operand on result 1.
\<close>

definition scenario_heap :: heap where
  "scenario_heap =
     \<lparr>valuebases = [0x1000 \<mapsto> \<lparr>FirstUse = 0\<rparr>, 0x2000 \<mapsto> \<lparr>FirstUse = 0\<rparr>],
      operands = Map.empty\<rparr>"

definition scenarioB_edges :: "(ptr \<times> ptr \<times> SILValue) list" where
  "scenarioB_edges =
     [(0x100, 0x1000, \<lparr>ValueAndResultNumber = 0x2000\<rparr>),
      (0x120, 0x1000, \<lparr>ValueAndResultNumber = 0x2002\<rparr>),
      (0x140, 0x1000, \<lparr>ValueAndResultNumber = 0x2000\<rparr>)]"

definition scenarioB_heap :: heap where
  "scenarioB_heap =
     (case construct_operands scenario_heap scenarioB_edges of
        Inl err \<Rightarrow> scenario_heap | Inr h \<Rightarrow> h)"

definition scenarioA_edge :: "(ptr \<times> ptr \<times> SILValue) list" where
  "scenarioA_edge = [(0x100, 0x2000, \<lparr>ValueAndResultNumber = 0x1000\<rparr>)]"

definition scenarioA_heap :: heap where
  "scenarioA_heap =
     (case construct_operands scenario_heap scenarioA_edge of
        Inl err \<Rightarrow> scenario_heap | Inr h \<Rightarrow> h)"

definition result1_only_heap :: heap where
  "result1_only_heap =
     (case construct_operands scenario_heap
             [(0x120, 0x1000, \<lparr>ValueAndResultNumber = 0x2002\<rparr>)] of
        Inl err \<Rightarrow> scenario_heap | Inr h \<Rightarrow> h)"

declare ValueBaseUseIterator_walk.simps [code]
declare ValueUseIterator_skip.simps [code]
declare ValueUseIterator_advance.simps [code]
declare ValueUseIterator_walk.simps [code]

section \<open>Facts about the packed pair\<close>

lemma IntShift_eq: "IntShift = 1"
  by (simp add: IntShift_def NumLowBitsAvailable_def ValueResultNumberBits_def)

lemma IntMask_eq: "IntMask = 1"
  by (simp add: IntMask_def ValueResultNumberBits_def)

lemma PointerBitMask_eq: "PointerBitMask = NOT (mask 2)"
  by (simp add: PointerBitMask_def NumLowBitsAvailable_def mask_eq_exp_minus_1)

lemma ptr_aligned_take_bit: "ptr_aligned p \<longleftrightarrow> take_bit 2 p = 0"
  by (simp add: ptr_aligned_def NumLowBitsAvailable_def take_bit_eq_mask mask_eq_exp_minus_1)

lemma ptr_aligned_bits: "ptr_aligned p \<Longrightarrow> n < 2 \<Longrightarrow> \<not> bit p n"
proof
  assume a: "ptr_aligned p" and n: "n < 2" and b: "bit p n"
  from n b have "bit (take_bit 2 p) n" by (simp add: bit_take_bit_iff)
  with a show False by (simp add: ptr_aligned_take_bit)
qed

lemma pip_getInt_bit: "pip_getInt v = of_bool (bit v 1)"
proof -
  have "drop_bit 1 v AND 1 = of_bool (bit v 1)"
    by (simp add: and_one_eq mod_2_eq_odd bit_iff_odd_drop_bit)
  then show ?thesis by (simp add: pip_getInt_def IntShift_eq IntMask_eq del: and_one_eq)
qed

lemma unsigned_lt2_cases: "(i::unsigned) < 2 \<Longrightarrow> i = 0 \<or> i = 1"
proof -
  assume "i < 2"
  then have "unat i < 2" by (simp add: word_less_nat_alt)
  then have "unat i = 0 \<or> unat i = 1" by arith
  then show ?thesis by (metis unat_0 unat_1 word_unat_eq_iff)
qed

lemma pip_getInt_lt2: "pip_getInt v < 2"
  by (simp add: pip_getInt_bit word_less_nat_alt)

lemma pip_getInt_overflow: "2 \<le> i \<Longrightarrow> pip_getInt v \<noteq> i"
  by (auto simp: pip_getInt_bit word_le_nat_alt)

lemma pip_set_0: "pip_setPointerAndInt p 0 = p"
  by (simp add: pip_setPointerAndInt_def)

lemma pip_set_1: "pip_setPointerAndInt p 1 = p OR 2"
  by (simp add: pip_setPointerAndInt_def IntShift_eq)

lemma bit_or2: "bit (p OR (2::ptr)) n \<longleftrightarrow> bit p n \<or> n = 1"
  by (auto simp: bit_or_iff bit_simps)

lemma bit_pip_getPointer: "bit (pip_getPointer v) n \<longleftrightarrow> 2 \<le> n \<and> bit v n"
  by (auto simp: pip_getPointer_def PointerBitMask_eq bit_simps dest: bit_imp_le_length)

lemma pip_getInt_set: "ptr_aligned p \<Longrightarrow> i < 2 \<Longrightarrow> pip_getInt (pip_setPointerAndInt p i) = i"
  apply (drule unsigned_lt2_cases)
  apply (frule ptr_aligned_bits[of p 1], simp)
  apply (auto simp: pip_getInt_bit pip_set_0 pip_set_1 bit_or2)
  done

lemma pip_getPointer_set:
  "ptr_aligned p \<Longrightarrow> i < 2 \<Longrightarrow> pip_getPointer (pip_setPointerAndInt p i) = p"
  apply (drule unsigned_lt2_cases)
  apply (rule bit_word_eqI)
  apply (case_tac "n < 2")
  apply (auto simp: bit_pip_getPointer pip_set_0 pip_set_1 bit_or2 dest: ptr_aligned_bits)
  done

lemma aligned_dvd: "ptr_aligned p \<Longrightarrow> 4 dvd unat p"
proof -
  assume "ptr_aligned p"
  then have "unat (take_bit 2 p) = 0" by (simp add: ptr_aligned_take_bit)
  then have "unat p mod 4 = 0" by (simp add: take_bit_eq_mod unat_mod)
  then show ?thesis by presburger
qed

lemma or2_plus: "ptr_aligned p \<Longrightarrow> p OR 2 = p + 2"
proof (rule disjunctive_add[symmetric])
  fix n
  assume "ptr_aligned p"
  then have "\<not> bit p 1" by (rule ptr_aligned_bits) simp
  then show "\<not> bit p n \<or> \<not> bit (2::ptr) n" by (cases "n = 1") (auto simp: bit_simps)
qed

lemma unat_or2: "ptr_aligned p \<Longrightarrow> unat (p OR 2) = unat p + 2"
proof -
  assume a: "ptr_aligned p"
  have lt: "unat p < 2 ^ 64" using unsigned_less [of p, where 'a=nat] by simp
  from aligned_dvd [OF a] lt have "unat p + unat (2::ptr) < 2 ^ LENGTH(64)" 
    by (auto elim!: dvdE)
  then have "unat (p + 2) = unat p + unat (2::ptr)" by (simp only: unat_add_lem)
  with a show ?thesis by (simp add: or2_plus)
qed

lemma pip_less_iff:
  assumes "ptr_aligned P" "ptr_aligned Q" "r < 2" "s < 2"
  shows "pip_setPointerAndInt P r < pip_setPointerAndInt Q s \<longleftrightarrow> P < Q \<or> (P = Q \<and> r < s)"
proof -
  from assms(1,2) obtain k l where k: "unat P = 4 * k" and l: "unat Q = 4 * l"
    by (auto dest!: aligned_dvd elim!: dvdE)
  have PQ: "P = Q \<longleftrightarrow> k = l" using k l by (auto simp: word_unat_eq_iff)
  from assms(3,4) have "r = 0 \<or> r = 1" "s = 0 \<or> s = 1" by (auto dest: unsigned_lt2_cases)
  then show ?thesis using k l PQ assms(1,2)
    by (auto simp: pip_set_0 pip_set_1 word_less_nat_alt unat_or2)
qed

lemmas pip_eval = SILValue_ctor_def Let_def getResultNumber_def getDef_def pip_getInt_def
  pip_getPointer_def pip_setPointerAndInt_def pip_setPointer_def IntShift_def IntMask_def
  PointerBitMask_def NumLowBitsAvailable_def ValueResultNumberBits_def ptr_aligned_def

lemmas heap_eval = bindE_def load_FirstUse_def store_FirstUse_def load_Operand_def
  store_NextUse_def store_Back_def store_TheValue_def load_slot_def removeFromCurrent_def
  insertIntoCurrent_def Operand_ctor_def Operand_get_def Operand_set_def Operand_dtor_def
  ValueBase_use_empty_def

lemmas scenario_eval = scenario_heap_def scenarioA_edge_def scenarioA_heap_def
  scenarioB_edges_def scenarioB_heap_def result1_only_heap_def construct_operands.simps

lemmas iter_eval = ValueBase_getUses_def ValueBase_use_begin_def ValueBase_use_end_def
  ValueBaseUseIterator_walk.simps ValueBaseUseIterator_eq_def ValueBaseUseIterator_incr_def
  ValueBaseUseIterator_deref_def SILValue_use_empty_def SILValue_use_begin_def
  SILValue_use_end_def ValueUseIterator_ctor_def ValueUseIterator_skip.simps
  ValueUseIterator_eq_def

section \<open>Handles: construction, comparison, hashing, sizing\<close>

lemma SILValue_ctor_Inr:
  "SILValue_ctor V n = Inr a \<Longrightarrow>
     ValueAndResultNumber a = pip_setPointerAndInt V n \<and> getResultNumber a = n \<and> n < 2"
  using pip_getInt_lt2 [of "pip_setPointerAndInt V n"]
  by (auto simp: SILValue_ctor_def Let_def getResultNumber_def split: if_splits)

lemma SILValue_ctor_aligned:
  "ptr_aligned V \<Longrightarrow> n < 2 \<Longrightarrow>
     SILValue_ctor V n = Inr \<lparr>ValueAndResultNumber = pip_setPointerAndInt V n\<rparr>"
  by (simp add: SILValue_ctor_def Let_def getResultNumber_def pip_getInt_set)

lemma SILValue_ctor_getDef:
  "ptr_aligned V \<Longrightarrow> SILValue_ctor V n = Inr a \<Longrightarrow> getDef a = V"
  by (auto simp: getDef_def pip_getPointer_set dest!: SILValue_ctor_Inr)

lemma bits_bound: "unat (n::unsigned) < 2 ^ ValueResultNumberBits \<longleftrightarrow> n < 2"
  by (simp add: ValueResultNumberBits_def word_less_nat_alt)

text \<open>
  C5: constructing a handle with a result number that does not fit into
  \<open>ValueResultNumberBits\<close> bits (2 or more) fails the constructor's assertion; a handle
  that was constructed reports the result number it was given; and for an aligned
  \<open>ValueBase*\<close> every result number that fits (0 or 1) constructs a handle that reports
  that number and that identity.
\<close>

theorem SILValue_ctor_result_number:
  "(2 ^ ValueResultNumberBits \<le> unat n \<longrightarrow> SILValue_ctor V n = Inl AssertionFailure) \<and>
   (\<forall>a. SILValue_ctor V n = Inr a \<longrightarrow> getResultNumber a = n) \<and>
   (ptr_aligned V \<and> unat n < 2 ^ ValueResultNumberBits \<longrightarrow>
      (\<exists>a. SILValue_ctor V n = Inr a \<and> getResultNumber a = n \<and> getDef a = V))"
proof (intro conjI impI allI)
  assume "2 ^ ValueResultNumberBits \<le> unat n"
  then have "2 \<le> n" by (simp add: ValueResultNumberBits_def word_le_nat_alt)
  then show "SILValue_ctor V n = Inl AssertionFailure"
    using pip_getInt_overflow [of n "pip_setPointerAndInt V n"]
    by (auto simp: SILValue_ctor_def Let_def getResultNumber_def)
next
  fix a assume "SILValue_ctor V n = Inr a"
  then show "getResultNumber a = n" by (simp add: SILValue_ctor_Inr)
next
  assume "ptr_aligned V \<and> unat n < 2 ^ ValueResultNumberBits"
  then have a: "ptr_aligned V" and n: "n < 2" by (simp_all add: bits_bound)
  then show "\<exists>a. SILValue_ctor V n = Inr a \<and> getResultNumber a = n \<and> getDef a = V"
    by (simp add: SILValue_ctor_aligned getResultNumber_def getDef_def pip_getInt_set
        pip_getPointer_set)
qed

theorem SILValue_ctor_result_number_witness:
  "SILValue_ctor 0x1000 2 = Inl AssertionFailure \<and>
   (\<exists>a. SILValue_ctor 0x1000 1 = Inr a \<and> getResultNumber a = 1 \<and> getDef a = 0x1000)"
  using SILValue_ctor_result_number [of 2 "0x1000"] SILValue_ctor_result_number [of 1 "0x1000"]
  by (simp add: ValueResultNumberBits_def ptr_aligned_def NumLowBitsAvailable_def)

text \<open>
  C6: the general \<open>getExtraSize(k)\<close> is \<open>sizeof(Operand) * k\<close>; the specialization for
  no static operands gives \<open>sizeof(Operand) * (k - 1)\<close> for \<open>k > 0\<close> and \<open>0\<close> for
  \<open>k = 0\<close>, so that together with its one-element buffer it accounts for exactly \<open>k\<close>
  operands.  The arithmetic is that of \<open>size_t\<close>.
\<close>

theorem getExtraSize_accounting:
  "TailAllocatedOperandList_getExtraSize sz k = sz * of_nat (unat k) \<and>
   (0 < k \<longrightarrow> TailAllocatedOperandList0_getExtraSize sz k = sz * of_nat (unat k - 1)) \<and>
   TailAllocatedOperandList0_getExtraSize sz 0 = 0 \<and>
   (0 < k \<longrightarrow> TailAllocatedOperandList0_getExtraSize sz k + sz =
                TailAllocatedOperandList_getExtraSize sz k)"
proof -
  have u: "(ucast k :: size_t) = of_nat (unat k)" by simp
  have m: "(ucast (k - 1) :: size_t) = of_nat (unat k - 1)" if "0 < k"
  proof -
    from that have "1 \<le> k" by (simp add: word_less_nat_alt word_le_nat_alt)
    then have "unat (k - 1) = unat k - 1" by (simp add: unat_sub)
    moreover have "(ucast (k - 1) :: size_t) = of_nat (unat (k - 1))" by simp
    ultimately show ?thesis by (simp only:)
  qed
  have s: "(of_nat (unat k - 1) :: size_t) + 1 = of_nat (unat k)" if "0 < k"
  proof -
    from that have "0 < unat k" by (simp add: word_less_nat_alt)
    then have "Suc (unat k - 1) = unat k" by simp
    then show ?thesis by (metis of_nat_Suc add.commute)
  qed
  have d: "sz * of_nat (unat k - 1) + sz = sz * of_nat (unat k)" if "0 < k"
  proof -
    have "sz * of_nat (unat k - 1) + sz = sz * (of_nat (unat k - 1) + 1)"
      by (simp only: distrib_left mult_1_right)
    then show ?thesis by (simp only: s [OF that])
  qed
  show ?thesis
    unfolding TailAllocatedOperandList_getExtraSize_def TailAllocatedOperandList0_getExtraSize_def
    using m d by (simp add: u del: of_nat_unat)
qed

theorem getExtraSize_accounting_witness:
  "TailAllocatedOperandList0_getExtraSize 32 3 = 64 \<and>
   TailAllocatedOperandList_getExtraSize 32 3 = 96 \<and>
   TailAllocatedOperandList0_getExtraSize 32 3 + 32 = TailAllocatedOperandList_getExtraSize 32 3"
  using getExtraSize_accounting [of 32 3] by simp

text \<open>
  C7: for handles made by the constructor from aligned identities, \<open>operator==\<close> holds
  iff identity and result number agree, and \<open>operator<\<close> is a strict total order: first
  by the identity's address, then by the result number.
\<close>

theorem SILValue_eq_and_order:
  assumes "ptr_aligned Va" "ptr_aligned Vb" "ptr_aligned Vc"
    and "SILValue_ctor Va na = Inr a" "SILValue_ctor Vb nb = Inr b" "SILValue_ctor Vc nc = Inr c"
  shows "(SILValue_eq a b \<longleftrightarrow> getDef a = getDef b \<and> getResultNumber a = getResultNumber b) \<and>
         (SILValue_less a b \<longleftrightarrow>
            getDef a < getDef b \<or> (getDef a = getDef b \<and> getResultNumber a < getResultNumber b)) \<and>
         \<not> SILValue_less a a \<and>
         (SILValue_less a b \<and> SILValue_less b c \<longrightarrow> SILValue_less a c) \<and>
         (SILValue_less a b \<or> SILValue_eq a b \<or> SILValue_less b a)"
proof -
  note A = SILValue_ctor_Inr [OF assms(4)] SILValue_ctor_getDef [OF assms(1,4)]
  note B = SILValue_ctor_Inr [OF assms(5)] SILValue_ctor_getDef [OF assms(2,5)]
  have eq: "SILValue_eq a b \<longleftrightarrow> getDef a = getDef b \<and> getResultNumber a = getResultNumber b"
    using A B by (auto simp: SILValue_eq_def getDef_def getResultNumber_def)
  have less: "SILValue_less a b \<longleftrightarrow>
      getDef a < getDef b \<or> (getDef a = getDef b \<and> getResultNumber a < getResultNumber b)"
    using A B pip_less_iff [OF assms(1,2), of na nb]
    by (simp add: SILValue_less_def getOpaqueValue_def)
  show ?thesis using eq less
    by (auto simp: SILValue_less_def SILValue_eq_def getOpaqueValue_def)
qed

theorem SILValue_eq_and_order_witness:
  "ptr_aligned 0x1000 \<and> ptr_aligned 0x2000 \<and>
   SILValue_ctor 0x1000 1 = Inr \<lparr>ValueAndResultNumber = 0x1002\<rparr> \<and>
   SILValue_ctor 0x2000 0 = Inr \<lparr>ValueAndResultNumber = 0x2000\<rparr> \<and>
   SILValue_ctor 0x2000 1 = Inr \<lparr>ValueAndResultNumber = 0x2002\<rparr> \<and>
   SILValue_less \<lparr>ValueAndResultNumber = 0x1002\<rparr> \<lparr>ValueAndResultNumber = 0x2000\<rparr> \<and>
   SILValue_less \<lparr>ValueAndResultNumber = 0x2000\<rparr> \<lparr>ValueAndResultNumber = 0x2002\<rparr> \<and>
   \<not> SILValue_eq \<lparr>ValueAndResultNumber = 0x2000\<rparr> \<lparr>ValueAndResultNumber = 0x2002\<rparr>"
proof -
  have p1: "ptr_aligned 0x1000" and p2: "ptr_aligned 0x2000" by (simp_all add: pip_eval)
  have a: "SILValue_ctor 0x1000 1 = Inr \<lparr>ValueAndResultNumber = 0x1002\<rparr>"
    and b: "SILValue_ctor 0x2000 0 = Inr \<lparr>ValueAndResultNumber = 0x2000\<rparr>"
    and c: "SILValue_ctor 0x2000 1 = Inr \<lparr>ValueAndResultNumber = 0x2002\<rparr>"
    by (simp_all add: pip_eval)
  show ?thesis
    using SILValue_eq_and_order [OF p1 p2 p2 a b c] SILValue_eq_and_order [OF p2 p2 p2 b c c]
      p1 p2 a b c
    by (simp add: pip_eval)
qed

text \<open>
  C8: two result-filtered iterators compare equal iff their cursors are equal, whatever
  result number each one stores: iterators at the same operand with different filters are
  equal, and the constructor at \<open>nullptr\<close> gives the null cursor for every filter.
\<close>

theorem ValueUseIterator_eq_cursor_only:
  "(ValueUseIterator_eq a b \<longleftrightarrow> ValueUseIterator_deref a = ValueUseIterator_deref b) \<and>
   (ptr_aligned cur \<and> r1 < 2 \<and> r2 < 2 \<longrightarrow>
      ValueUseIterator_eq \<lparr>CurAndResultNumber = pip_setPointerAndInt cur r1\<rparr>
                          \<lparr>CurAndResultNumber = pip_setPointerAndInt cur r2\<rparr> \<and>
      pip_getInt (pip_setPointerAndInt cur r1) = r1 \<and>
      pip_getInt (pip_setPointerAndInt cur r2) = r2) \<and>
   ValueUseIterator_ctor h 0 r =
      Some (Inr \<lparr>CurAndResultNumber = pip_setPointerAndInt 0 r\<rparr>)"
  by (simp add: ValueUseIterator_eq_def ValueUseIterator_deref_def pip_getPointer_set
      pip_getInt_set ValueUseIterator_ctor_def ValueUseIterator_skip.simps)

theorem ValueUseIterator_eq_cursor_only_witness:
  "ptr_aligned 0x100 \<and>
   ValueUseIterator_eq \<lparr>CurAndResultNumber = pip_setPointerAndInt 0x100 0\<rparr>
                       \<lparr>CurAndResultNumber = pip_setPointerAndInt 0x100 1\<rparr> \<and>
   pip_getInt (pip_setPointerAndInt 0x100 0) \<noteq> pip_getInt (pip_setPointerAndInt 0x100 1) \<and>
   ValueUseIterator_eq \<lparr>CurAndResultNumber = pip_setPointerAndInt 0 0\<rparr>
                       \<lparr>CurAndResultNumber = pip_setPointerAndInt 0 1\<rparr>"
proof -
  have p: "ptr_aligned 0x100" and z: "ptr_aligned 0" by (simp_all add: pip_eval)
  have r: "(0::unsigned) < 2" "(1::unsigned) < 2" by simp_all
  show ?thesis
    using ValueUseIterator_eq_cursor_only [of _ _ "0x100" 0 1]
      ValueUseIterator_eq_cursor_only [of _ _ 0 0 1] p z r
    by (simp add: pip_eval ValueUseIterator_eq_def ValueUseIterator_deref_def)
qed

text \<open>
  C9: the hash of a handle is the pointer hash of \<open>getDef()\<close>; handles that are equal
  hash alike, and the two handles on results 0 and 1 of one identity hash alike although
  \<open>isEqual\<close> tells them apart.
\<close>

theorem DenseMapInfo_hash_ignores_result:
  "DenseMapInfo_getHashValue H a = H (getDef a) \<and>
   (DenseMapInfo_isEqual a b \<longrightarrow> DenseMapInfo_getHashValue H a = DenseMapInfo_getHashValue H b) \<and>
   (ptr_aligned V \<longrightarrow>
      (\<exists>x y. SILValue_ctor V 0 = Inr x \<and> SILValue_ctor V 1 = Inr y \<and>
             getDef x = V \<and> getDef y = V \<and>
             getResultNumber x = 0 \<and> getResultNumber y = 1 \<and>
             DenseMapInfo_getHashValue H x = DenseMapInfo_getHashValue H y \<and>
             \<not> DenseMapInfo_isEqual x y))"
proof (intro conjI impI)
  show "DenseMapInfo_getHashValue H a = H (getDef a)"
    by (simp add: DenseMapInfo_getHashValue_def)
next
  assume "DenseMapInfo_isEqual a b"
  then show "DenseMapInfo_getHashValue H a = DenseMapInfo_getHashValue H b"
    by (simp add: DenseMapInfo_isEqual_def SILValue_eq_def DenseMapInfo_getHashValue_def
        getDef_def)
next
  assume V: "ptr_aligned V"
  have r: "(0::unsigned) < 2" "(1::unsigned) < 2" by simp_all
  have ne: "pip_setPointerAndInt V 0 \<noteq> pip_setPointerAndInt V 1"
    using pip_getInt_set [OF V r(1)] pip_getInt_set [OF V r(2)] by auto
  show "\<exists>x y. SILValue_ctor V 0 = Inr x \<and> SILValue_ctor V 1 = Inr y \<and>
             getDef x = V \<and> getDef y = V \<and>
             getResultNumber x = 0 \<and> getResultNumber y = 1 \<and>
             DenseMapInfo_getHashValue H x = DenseMapInfo_getHashValue H y \<and>
             \<not> DenseMapInfo_isEqual x y"
    using V ne
    by (simp add: SILValue_ctor_aligned DenseMapInfo_getHashValue_def DenseMapInfo_isEqual_def
        SILValue_eq_def getDef_def getResultNumber_def pip_getPointer_set pip_getInt_set)
qed

theorem DenseMapInfo_hash_ignores_result_witness:
  "ptr_aligned 0x1000 \<and>
   DenseMapInfo_isEqual \<lparr>ValueAndResultNumber = 0x1002\<rparr> \<lparr>ValueAndResultNumber = 0x1002\<rparr> \<and>
   (\<exists>x y. SILValue_ctor 0x1000 0 = Inr x \<and> SILValue_ctor 0x1000 1 = Inr y \<and>
      DenseMapInfo_getHashValue (\<lambda>p. ucast (drop_bit 4 p) XOR ucast (drop_bit 9 p)) x =
      DenseMapInfo_getHashValue (\<lambda>p. ucast (drop_bit 4 p) XOR ucast (drop_bit 9 p)) y \<and>
      \<not> DenseMapInfo_isEqual x y)"
proof -
  have p: "ptr_aligned 0x1000" by (simp add: pip_eval)
  have e: "DenseMapInfo_isEqual \<lparr>ValueAndResultNumber = 0x1002\<rparr> \<lparr>ValueAndResultNumber = 0x1002\<rparr>"
    by (simp add: DenseMapInfo_isEqual_def SILValue_eq_def)
  from DenseMapInfo_hash_ignores_result
         [of "\<lambda>p. ucast (drop_bit 4 p) XOR ucast (drop_bit 9 p)"
             "\<lparr>ValueAndResultNumber = 0x1002\<rparr>" "\<lparr>ValueAndResultNumber = 0x1002\<rparr>" "0x1000"] p e
  show ?thesis by blast
qed

section \<open>Operand: unlinking, destruction, retargeting\<close>

text \<open>
  For an operand that is linked (\<open>*Back\<close> is the operand itself), \<open>removeFromCurrent\<close>
  changes no \<open>FirstUse\<close> and no \<open>NextUse\<close> field at all: it only moves the successor's
  \<open>Back\<close>.
\<close>

lemma removeFromCurrent_links_unchanged:
  assumes "operands h this = Some x" and "Back x = Some b" and "load_slot h b = Inr this"
    and "removeFromCurrent h this = Inr h'"
  shows "valuebases h' = valuebases h \<and>
         (\<forall>q. map_option NextUse (operands h' q) = map_option NextUse (operands h q))"
  using assms
  by (auto simp: removeFromCurrent_def bindE_def load_Operand_def store_NextUse_def
      store_Back_def split: if_splits option.splits)

text \<open>
  C1: unlinking a linked operand is to store its \<open>NextUse\<close> into the slot that
  \<open>Back\<close> addresses, after which the operand is off the chain.  The code stores into
  \<open>(*Back)->NextUse\<close>, the operand's own field, and the slot keeps pointing at the
  operand.  In scenario A the operand at \<open>0x100\<close> is the only use of the value at
  \<open>0x1000\<close>, with \<open>NextUse = nullptr\<close> and \<open>Back = &FirstUse\<close>; after
  \<open>removeFromCurrent\<close> the value's \<open>FirstUse\<close> is still \<open>0x100\<close> and the walk over its
  uses still finds the operand.  In scenario B, unlinking the middle operand \<open>e1\<close> leaves
  the chain \<open>e2, e1, e0\<close> as it was.
\<close>

theorem removeFromCurrent_leaves_operand_linked:
  "construct_operands scenario_heap scenarioA_edge = Inr scenarioA_heap \<and>
   construct_operands scenario_heap scenarioB_edges = Inr scenarioB_heap \<and>
   load_FirstUse scenarioA_heap 0x1000 = Inr 0x100 \<and>
   load_Operand scenarioA_heap 0x100 =
     Inr \<lparr>TheValue = \<lparr>ValueAndResultNumber = 0x1000\<rparr>, NextUse = 0,
          Back = Some (FirstUse_slot 0x1000), Owner = 0x2000\<rparr> \<and>
   bindE (removeFromCurrent scenarioA_heap 0x100) (\<lambda>h. load_FirstUse h 0x1000) = Inr 0x100 \<and>
   (case removeFromCurrent scenarioA_heap 0x100 of
      Inl err \<Rightarrow> Some (Inl err) | Inr h \<Rightarrow> ValueBase_getUses h 0x1000) = Some (Inr [0x100]) \<and>
   ValueBase_getUses scenarioB_heap 0x2000 = Some (Inr [0x140, 0x120, 0x100]) \<and>
   (case removeFromCurrent scenarioB_heap 0x120 of
      Inl err \<Rightarrow> Some (Inl err) | Inr h \<Rightarrow> ValueBase_getUses h 0x2000)
     = Some (Inr [0x140, 0x120, 0x100])"
  by (simp add: scenario_eval heap_eval iter_eval pip_eval)

text \<open>
  C2: scenario A.  While the operand at \<open>0x100\<close> lives the value at \<open>0x1000\<close> has uses,
  the operand's \<open>get()\<close> is the handle on result 0, and the operand is on the chain once.
  After the operand's destructor \<open>use_empty()\<close> is still false: \<open>FirstUse\<close> keeps the
  address of the operand, which is gone.  After \<open>set\<close> to a handle on the other value the
  operand is still on the chain of the value at \<open>0x1000\<close>.
\<close>

theorem use_list_after_destruction:
  "construct_operands scenario_heap scenarioA_edge = Inr scenarioA_heap \<and>
   ValueBase_use_empty scenario_heap 0x1000 = Inr True \<and>
   ValueBase_use_empty scenarioA_heap 0x1000 = Inr False \<and>
   Operand_get scenarioA_heap 0x100 = Inr \<lparr>ValueAndResultNumber = 0x1000\<rparr> \<and>
   ValueBase_getUses scenarioA_heap 0x1000 = Some (Inr [0x100]) \<and>
   bindE (Operand_dtor scenarioA_heap 0x100) (\<lambda>h. ValueBase_use_empty h 0x1000) = Inr False \<and>
   bindE (Operand_dtor scenarioA_heap 0x100) (\<lambda>h. load_FirstUse h 0x1000) = Inr 0x100 \<and>
   bindE (Operand_dtor scenarioA_heap 0x100) (\<lambda>h. load_Operand h 0x100) = Inl InvalidAccess \<and>
   (case Operand_set scenarioA_heap 0x100 \<lparr>ValueAndResultNumber = 0x2000\<rparr> of
      Inl err \<Rightarrow> Some (Inl err) | Inr h \<Rightarrow> ValueBase_getUses h 0x1000) = Some (Inr [0x100])"
  by (simp add: scenario_eval heap_eval iter_eval pip_eval)

lemma insertIntoCurrent_TheValue:
  "insertIntoCurrent h this = Inr h' \<Longrightarrow>
   map_option TheValue (operands h' q) = map_option TheValue (operands h q)"
  by (auto simp: insertIntoCurrent_def bindE_def load_Operand_def store_Back_def
      load_FirstUse_def store_NextUse_def store_FirstUse_def
      split: option.splits if_splits sum.splits)

lemma Operand_set_get_partial:
  assumes "Operand_set h this newValue = Inr h'"
  shows "Operand_get h' this = Inr newValue"
proof -
  from assms obtain h1 h2 where "removeFromCurrent h this = Inr h1"
    and st: "store_TheValue h1 this newValue = Inr h2"
    and ins: "insertIntoCurrent h2 this = Inr h'"
    by (auto simp: Operand_set_def bindE_def split: sum.splits)
  from st have "map_option TheValue (operands h2 this) = Some newValue"
    by (auto simp: store_TheValue_def split: option.splits)
  with insertIntoCurrent_TheValue [OF ins, of this]
  have "map_option TheValue (operands h' this) = Some newValue" by simp
  then show ?thesis
    by (auto simp: Operand_get_def bindE_def load_Operand_def split: option.splits)
qed

lemma removeFromCurrent_defined:
  assumes "operands h this = Some x"
    and "case Back x of None \<Rightarrow> True
         | Some b \<Rightarrow> (case load_slot h b of Inl err \<Rightarrow> False | Inr p \<Rightarrow> operands h p \<noteq> None) \<and>
               (NextUse x = 0 \<or> operands h (NextUse x) \<noteq> None)"
  shows "\<exists>h1. removeFromCurrent h this = Inr h1 \<and> valuebases h1 = valuebases h \<and>
           dom (operands h1) = dom (operands h)"
proof (cases "Back x")
  case None
  with assms(1) show ?thesis by (simp add: removeFromCurrent_def bindE_def load_Operand_def)
next
  case (Some b)
  with assms(2) obtain p xp where p: "load_slot h b = Inr p" "operands h p = Some xp"
    and n: "NextUse x = 0 \<or> operands h (NextUse x) \<noteq> None"
    by (auto split: sum.splits)
  show ?thesis
  proof (cases "p = this")
    case True
    with p assms(1) Some n show ?thesis
      by (auto simp: removeFromCurrent_def bindE_def load_Operand_def store_NextUse_def
          store_Back_def)
  next
    case False
    with p assms(1) Some n show ?thesis
      by (auto simp: removeFromCurrent_def bindE_def load_Operand_def store_NextUse_def
          store_Back_def)
  qed
qed

lemma insertIntoCurrent_defined:
  assumes "operands h this = Some x" and "valuebases h (getDef (TheValue x)) = Some vb"
    and "FirstUse vb = 0 \<or> operands h (FirstUse vb) \<noteq> None"
  shows "\<exists>h'. insertIntoCurrent h this = Inr h'"
  using assms
  by (auto simp: insertIntoCurrent_def bindE_def load_Operand_def store_Back_def
      load_FirstUse_def store_NextUse_def store_FirstUse_def)

lemma Operand_set_defined:
  assumes "Operand_set_pre h this newValue"
  shows "\<exists>h'. Operand_set h this newValue = Inr h'"
proof -
  from assms obtain x vb where x: "operands h this = Some x"
    and b: "case Back x of None \<Rightarrow> True
         | Some b \<Rightarrow> (case load_slot h b of Inl err \<Rightarrow> False | Inr p \<Rightarrow> operands h p \<noteq> None) \<and>
               (NextUse x = 0 \<or> operands h (NextUse x) \<noteq> None)"
    and vb: "valuebases h (getDef newValue) = Some vb"
    and f: "FirstUse vb = 0 \<or> operands h (FirstUse vb) \<noteq> None"
    by (auto simp: Operand_set_pre_def split: option.splits)
  from removeFromCurrent_defined [OF x b]
  obtain h1 where r: "removeFromCurrent h this = Inr h1" and v1: "valuebases h1 = valuebases h"
    and d1: "dom (operands h1) = dom (operands h)" by blast
  from x d1 obtain x1 where x1: "operands h1 this = Some x1" by (auto simp: set_eq_iff domIff)
  let ?h2 = "h1\<lparr>operands := (operands h1)(this \<mapsto> x1\<lparr>TheValue := newValue\<rparr>)\<rparr>"
  have st: "store_TheValue h1 this newValue = Inr ?h2" by (simp add: store_TheValue_def x1)
  have o2: "operands ?h2 this = Some (x1\<lparr>TheValue := newValue\<rparr>)" by simp
  have v2: "valuebases ?h2 (getDef (TheValue (x1\<lparr>TheValue := newValue\<rparr>))) = Some vb"
    using vb v1 by simp
  have f2: "FirstUse vb = 0 \<or> operands ?h2 (FirstUse vb) \<noteq> None"
    using f d1 by (auto simp: set_eq_iff domIff)
  from insertIntoCurrent_defined [OF o2 v2 f2]
  obtain h' where "insertIntoCurrent ?h2 this = Inr h'" by blast
  with r st show ?thesis by (simp add: Operand_set_def bindE_def)
qed

text \<open>
  C3: whenever \<open>set(newValue)\<close> returns, \<open>get()\<close> on the operand returns
  \<open>newValue\<close>, whatever the operand targeted before; and \<open>set\<close> does return when
  every pointer it dereferences names a live object, the identity of \<open>newValue\<close> among
  them.
\<close>

theorem Operand_set_then_get:
  "(\<forall>h'. Operand_set h this newValue = Inr h' \<longrightarrow> Operand_get h' this = Inr newValue) \<and>
   (Operand_set_pre h this newValue \<longrightarrow>
      (\<exists>h'. Operand_set h this newValue = Inr h' \<and> Operand_get h' this = Inr newValue))"
  using Operand_set_get_partial Operand_set_defined by blast

theorem Operand_set_then_get_witness:
  "Operand_set_pre scenarioB_heap 0x120 \<lparr>ValueAndResultNumber = 0x1000\<rparr> \<and>
   (\<exists>h'. Operand_set scenarioB_heap 0x120 \<lparr>ValueAndResultNumber = 0x1000\<rparr> = Inr h' \<and>
         Operand_get h' 0x120 = Inr \<lparr>ValueAndResultNumber = 0x1000\<rparr>) \<and>
   Operand_get scenarioB_heap 0x140 = Inr \<lparr>ValueAndResultNumber = 0x2000\<rparr> \<and>
   Operand_set_pre scenarioB_heap 0x140 \<lparr>ValueAndResultNumber = 0x2000\<rparr> \<and>
   (\<exists>h'. Operand_set scenarioB_heap 0x140 \<lparr>ValueAndResultNumber = 0x2000\<rparr> = Inr h' \<and>
         Operand_get h' 0x140 = Inr \<lparr>ValueAndResultNumber = 0x2000\<rparr>)"
proof -
  have 1: "Operand_set_pre scenarioB_heap 0x120 \<lparr>ValueAndResultNumber = 0x1000\<rparr>"
    and 2: "Operand_set_pre scenarioB_heap 0x140 \<lparr>ValueAndResultNumber = 0x2000\<rparr>"
    and 3: "Operand_get scenarioB_heap 0x140 = Inr \<lparr>ValueAndResultNumber = 0x2000\<rparr>"
    by (simp_all add: Operand_set_pre_def scenario_eval heap_eval pip_eval)
  from Operand_set_then_get [of scenarioB_heap "0x120" "\<lparr>ValueAndResultNumber = 0x1000\<rparr>"]
    Operand_set_then_get [of scenarioB_heap "0x140" "\<lparr>ValueAndResultNumber = 0x2000\<rparr>"] 1 2 3
  show ?thesis by blast
qed

section \<open>Use chains and the walks over them\<close>

lemma targets_result_alt:
  "targets_result h i p =
     (case operands h p of None \<Rightarrow> False | Some x \<Rightarrow> getResultNumber (TheValue x) = i)"
  by (simp add: targets_result_def Operand_get_def load_Operand_def bindE_def
      split: option.splits)

lemma chain_head_simps [simp]: "chain_head [] = 0" "chain_head (q # qs) = q"
  by (simp_all add: chain_head_def)

lemma use_chain_head: "use_chain h p us \<Longrightarrow> p = chain_head us"
  by (cases us) auto

lemma use_chain_nonzero: "use_chain h p us \<Longrightarrow> 0 \<notin> set us"
  by (induction us arbitrary: p) (auto split: option.splits)

lemma use_chain_live: "use_chain h p us \<Longrightarrow> q \<in> set us \<Longrightarrow> operands h q \<noteq> None"
  by (induction us arbitrary: p) (auto split: option.splits)

lemma use_chain_suffix: "use_chain h p (xs @ ys) \<Longrightarrow> use_chain h (chain_head ys) ys"
  by (induction xs arbitrary: p) (auto split: option.splits dest: use_chain_head)

lemma use_chain_dropWhile:
  "use_chain h p us \<Longrightarrow> use_chain h (chain_head (dropWhile P us)) (dropWhile P us)"
  using use_chain_suffix [of h p "takeWhile P us" "dropWhile P us"] by simp

lemma use_chain_cong:
  "\<forall>q\<in>set us. map_option NextUse (operands h' q) = map_option NextUse (operands h q) \<Longrightarrow>
   use_chain h' p us = use_chain h p us"
proof (induction us arbitrary: p)
  case Nil
  then show ?case by simp
next
  case (Cons x xs)
  from Cons.prems have x: "map_option NextUse (operands h' x) = map_option NextUse (operands h x)"
    by simp
  from Cons.prems have "\<forall>q\<in>set xs. map_option NextUse (operands h' q) = map_option NextUse (operands h q)"
    by simp
  note IH = Cons.IH [OF this]
  show ?case
  proof (cases "operands h x")
    case None
    with x show ?thesis by simp
  next
    case (Some ox)
    with x obtain ox' where "operands h' x = Some ox'" "NextUse ox' = NextUse ox" by auto
    with Some IH show ?thesis by simp
  qed
qed

text \<open>The unfiltered walk.\<close>

lemma ValueBaseUseIterator_walk_chain:
  "use_chain h p us \<Longrightarrow>
   ValueBaseUseIterator_walk h \<lparr>Cur = p\<rparr> ValueBase_use_end acc = Some (Inr (acc @ us))"
proof (induction us arbitrary: p acc)
  case Nil
  then show ?case
    by (subst ValueBaseUseIterator_walk.simps)
       (simp add: ValueBaseUseIterator_eq_def ValueBase_use_end_def)
next
  case (Cons x xs)
  from Cons.prems obtain ox where p: "p = x" "x \<noteq> 0" and ox: "operands h x = Some ox"
    and tl: "use_chain h (NextUse ox) xs"
    by (auto split: option.splits)
  show ?case
    by (subst ValueBaseUseIterator_walk.simps)
       (simp add: ValueBaseUseIterator_eq_def ValueBase_use_end_def ValueBaseUseIterator_incr_def
          ValueBaseUseIterator_deref_def load_Operand_def bindE_def p ox
          Cons.IH [OF tl, unfolded ValueBase_use_end_def])
qed

lemma ValueBase_getUses_chain:
  "valuebases h v = Some vb \<Longrightarrow> use_chain h (FirstUse vb) us \<Longrightarrow>
   ValueBase_getUses h v = Some (Inr us)"
  by (simp add: ValueBase_getUses_def ValueBase_use_begin_def load_FirstUse_def bindE_def
      ValueBaseUseIterator_walk_chain)

text \<open>The loops of the filtered iterator.\<close>

lemma ValueUseIterator_skip_chain:
  "use_chain h p us \<Longrightarrow>
   ValueUseIterator_skip h p r =
     Some (Inr (chain_head (dropWhile (\<lambda>q. \<not> targets_result h r q) us)))"
proof (induction us arbitrary: p)
  case Nil
  then show ?case by (subst ValueUseIterator_skip.simps) simp
next
  case (Cons x xs)
  from Cons.prems obtain ox where p: "p = x" "x \<noteq> 0" and ox: "operands h x = Some ox"
    and tl: "use_chain h (NextUse ox) xs"
    by (auto split: option.splits)
  show ?case
    by (subst ValueUseIterator_skip.simps)
       (simp add: load_Operand_def p ox targets_result_alt Cons.IH [OF tl])
qed

lemma ValueUseIterator_advance_chain:
  "operands h x = Some ox \<Longrightarrow> use_chain h (NextUse ox) xs \<Longrightarrow>
   ValueUseIterator_advance h x r =
     Some (Inr (chain_head (dropWhile (\<lambda>q. \<not> targets_result h r q) xs)))"
proof (induction xs arbitrary: x ox)
  case Nil
  then show ?case by (subst ValueUseIterator_advance.simps) (simp add: load_Operand_def)
next
  case (Cons y ys)
  from Cons.prems(2) obtain oy where n: "NextUse ox = y" "y \<noteq> 0" and oy: "operands h y = Some oy"
    and tl: "use_chain h (NextUse oy) ys"
    by (auto split: option.splits)
  show ?case
    by (subst ValueUseIterator_advance.simps)
       (simp add: load_Operand_def Cons.prems(1) n oy targets_result_alt Cons.IH [OF oy tl])
qed

lemma ptr_aligned_0: "ptr_aligned 0"
  by (simp add: ptr_aligned_def)

lemma pip_setPointer_set:
  "ptr_aligned x \<Longrightarrow> r < 2 \<Longrightarrow>
   pip_setPointer (pip_setPointerAndInt x r) n = pip_setPointerAndInt n r"
proof -
  assume x: "ptr_aligned x" and r: "r < 2"
  have low: "pip_setPointerAndInt x r AND NOT PointerBitMask = pip_setPointerAndInt 0 r"
  proof (rule bit_word_eqI)
    fix k assume "k < LENGTH(64)"
    from r have "r = 0 \<or> r = 1" by (rule unsigned_lt2_cases)
    then show "bit (pip_setPointerAndInt x r AND NOT PointerBitMask) k =
               bit (pip_setPointerAndInt 0 r) k"
      using ptr_aligned_bits [OF x, of k]
      by (cases "k < 2") (auto simp: pip_set_0 pip_set_1 bit_or2 PointerBitMask_eq bit_simps)
  qed
  from r have "r = 0 \<or> r = 1" by (rule unsigned_lt2_cases)
  then show ?thesis
    by (auto simp: pip_setPointer_def low pip_set_0 pip_set_1)
qed

lemma filter_dropWhile_not: "filter P (dropWhile (\<lambda>q. \<not> P q) xs) = filter P xs"
  by (induction xs) auto

lemma chain_head_dropWhile_zero:
  "0 \<notin> set us \<Longrightarrow> chain_head (dropWhile P us) = 0 \<longleftrightarrow> (\<forall>q\<in>set us. P q)"
proof -
  assume z: "0 \<notin> set us"
  show ?thesis
  proof (cases "dropWhile P us")
    case Nil
    then have "\<forall>q\<in>set us. P q" by (simp add: dropWhile_eq_Nil_conv)
    then show ?thesis unfolding Nil by simp
  next
    case (Cons y ys)
    then have "y \<in> set (dropWhile P us)" by simp
    then have "y \<in> set us" by (rule set_dropWhileD)
    moreover have "\<not> P y" using hd_dropWhile [of P us] Cons by simp
    ultimately show ?thesis using z Cons by auto
  qed
qed

lemma ValueUseIterator_walk_chain:
  assumes "use_chain h p us" and "\<forall>q\<in>set us. ptr_aligned q" and "r < 2"
    and "us \<noteq> [] \<longrightarrow> targets_result h r (hd us)"
    and "pip_getPointer (CurAndResultNumber e) = 0"
  shows "ValueUseIterator_walk h \<lparr>CurAndResultNumber = pip_setPointerAndInt p r\<rparr> e acc =
           Some (Inr (acc @ filter (targets_result h r) us))"
  using assms(1,2,4)
proof (induction us arbitrary: p acc rule: length_induct)
  case (1 us)
  note r = assms(3) and e = assms(5)
  show ?case
  proof (cases us)
    case Nil
    with "1.prems"(1) have "p = 0" by simp
    with Nil show ?thesis
      by (subst ValueUseIterator_walk.simps)
         (simp add: ValueUseIterator_eq_def e pip_getPointer_set ptr_aligned_0 r)
  next
    case (Cons x xs)
    with "1.prems" obtain ox where p: "p = x" "x \<noteq> 0" and ox: "operands h x = Some ox"
      and tl: "use_chain h (NextUse ox) xs" and ax: "ptr_aligned x"
      and tx: "targets_result h r x"
      by (auto split: option.splits)
    let ?ys = "dropWhile (\<lambda>q. \<not> targets_result h r q) xs"
    have adv: "ValueUseIterator_advance h x r = Some (Inr (chain_head ?ys))"
      by (rule ValueUseIterator_advance_chain [OF ox tl])
    have ch: "use_chain h (chain_head ?ys) ?ys" by (rule use_chain_dropWhile [OF tl])
    have len: "length ?ys < length us" using Cons length_dropWhile_le [of _ xs]
      by (simp add: le_imp_less_Suc)
    have al: "\<forall>q\<in>set ?ys. ptr_aligned q"
      using "1.prems"(2) Cons by (auto dest: set_dropWhileD)
    have hd: "?ys \<noteq> [] \<longrightarrow> targets_result h r (hd ?ys)"
      using hd_dropWhile [of "\<lambda>q. \<not> targets_result h r q" xs] by auto
    from "1.IH" len ch al hd
    have IH: "ValueUseIterator_walk h \<lparr>CurAndResultNumber = pip_setPointerAndInt (chain_head ?ys) r\<rparr>
                 e (acc @ [x]) = Some (Inr ((acc @ [x]) @ filter (targets_result h r) ?ys))"
      by blast
    have gp: "pip_getPointer (pip_setPointerAndInt x r) = x"
      and gi: "pip_getInt (pip_setPointerAndInt x r) = r"
      and sp: "pip_setPointer (pip_setPointerAndInt x r) (chain_head ?ys) =
               pip_setPointerAndInt (chain_head ?ys) r"
      using ax r by (simp_all add: pip_getPointer_set pip_getInt_set pip_setPointer_set)
    show ?thesis
      by (subst ValueUseIterator_walk.simps)
         (simp add: ValueUseIterator_eq_def ValueUseIterator_incr_def ValueUseIterator_deref_def
            e p gp gi sp adv IH Cons tx filter_dropWhile_not)
  qed
qed

lemma SILValue_use_end_eq:
  "SILValue_use_end h = Some (Inr \<lparr>CurAndResultNumber = 0\<rparr>)"
  by (simp add: SILValue_use_end_def ValueUseIterator_ctor_def ValueUseIterator_skip.simps
      pip_set_0)

lemma pip_getPointer_0: "pip_getPointer 0 = 0"
  by (simp add: pip_getPointer_def)

lemma SILValue_use_begin_chain:
  "valuebases h (getDef V) = Some vb \<Longrightarrow> use_chain h (FirstUse vb) us \<Longrightarrow>
   SILValue_use_begin h V =
     Some (Inr \<lparr>CurAndResultNumber = pip_setPointerAndInt
        (chain_head (dropWhile (\<lambda>q. \<not> targets_result h (getResultNumber V) q) us))
        (getResultNumber V)\<rparr>)"
  by (simp add: SILValue_use_begin_def load_FirstUse_def ValueUseIterator_ctor_def
      ValueUseIterator_skip_chain)

lemma getResultNumber_lt2: "getResultNumber V < 2"
  by (simp add: getResultNumber_def pip_getInt_lt2)

lemma SILValue_getUses_chain:
  assumes "valuebases h (getDef V) = Some vb" and "use_chain h (FirstUse vb) us"
    and "\<forall>q\<in>set us. ptr_aligned q"
  shows "SILValue_getUses h V = Some (Inr (filter (targets_result h (getResultNumber V)) us))"
proof -
  let ?T = "targets_result h (getResultNumber V)"
  let ?ys = "dropWhile (\<lambda>q. \<not> ?T q) us"
  have ch: "use_chain h (chain_head ?ys) ?ys" by (rule use_chain_dropWhile [OF assms(2)])
  have al: "\<forall>q\<in>set ?ys. ptr_aligned q" using assms(3) by (auto dest: set_dropWhileD)
  have hd: "?ys \<noteq> [] \<longrightarrow> ?T (hd ?ys)"
    using hd_dropWhile [of "\<lambda>q. \<not> ?T q" us] by auto
  have "ValueUseIterator_walk h
          \<lparr>CurAndResultNumber = pip_setPointerAndInt (chain_head ?ys) (getResultNumber V)\<rparr>
          \<lparr>CurAndResultNumber = 0\<rparr> [] = Some (Inr ([] @ filter ?T ?ys))"
    by (rule ValueUseIterator_walk_chain [OF ch al getResultNumber_lt2 hd])
       (simp add: pip_getPointer_0)
  then show ?thesis
    by (simp add: SILValue_getUses_def SILValue_use_begin_chain [OF assms(1,2)]
        SILValue_use_end_eq filter_dropWhile_not)
qed

lemma SILValue_use_empty_chain:
  assumes "valuebases h (getDef V) = Some vb" and "use_chain h (FirstUse vb) us"
    and "\<forall>q\<in>set us. ptr_aligned q"
  shows "SILValue_use_empty h V =
           Some (Inr (\<forall>q\<in>set us. \<not> targets_result h (getResultNumber V) q))"
proof -
  let ?T = "targets_result h (getResultNumber V)"
  let ?c = "chain_head (dropWhile (\<lambda>q. \<not> ?T q) us)"
  have z: "0 \<notin> set us" by (rule use_chain_nonzero [OF assms(2)])
  have "?c = 0 \<or> ?c \<in> set us"
  proof (cases "dropWhile (\<lambda>q. \<not> ?T q) us")
    case Nil
    show ?thesis unfolding Nil by simp
  next
    case (Cons y ys)
    then have "y \<in> set (dropWhile (\<lambda>q. \<not> ?T q) us)" by simp
    then have "y \<in> set us" by (rule set_dropWhileD)
    with Cons show ?thesis by simp
  qed
  then have "ptr_aligned ?c" using assms(3) ptr_aligned_0 by auto
  then have "pip_getPointer (pip_setPointerAndInt ?c (getResultNumber V)) = ?c"
    by (simp add: pip_getPointer_set getResultNumber_lt2)
  then show ?thesis
    by (simp add: SILValue_use_empty_def SILValue_use_begin_chain [OF assms(1,2)]
        SILValue_use_end_eq ValueUseIterator_eq_def pip_getPointer_0
        chain_head_dropWhile_zero [OF z])
qed

section \<open>Chains built by construction\<close>

lemma Operand_ctor_effect:
  assumes fresh: "operands h this = None"
    and v: "valuebases h (getDef tv) = Some vb"
    and f: "FirstUse vb = 0 \<or> operands h (FirstUse vb) \<noteq> None"
  shows "\<exists>h'. Operand_ctor h this owner tv = Inr h' \<and>
           valuebases h' = (valuebases h)(getDef tv \<mapsto> vb\<lparr>FirstUse := this\<rparr>) \<and>
           dom (operands h') = insert this (dom (operands h)) \<and>
           (\<forall>q. map_option NextUse (operands h' q) =
                  (if q = this then Some (FirstUse vb) else map_option NextUse (operands h q))) \<and>
           (\<forall>q. map_option TheValue (operands h' q) =
                  (if q = this then Some tv else map_option TheValue (operands h q)))"
proof (cases "FirstUse vb = 0")
  case True
  then show ?thesis using fresh v
    by (auto simp: Operand_ctor_def insertIntoCurrent_def bindE_def load_Operand_def
        store_Back_def load_FirstUse_def store_NextUse_def store_FirstUse_def)
next
  case False
  with f obtain xf where xf: "operands h (FirstUse vb) = Some xf" by auto
  with fresh have ne: "FirstUse vb \<noteq> this" by auto
  show ?thesis using fresh v xf ne False
    by (auto simp: Operand_ctor_def insertIntoCurrent_def bindE_def load_Operand_def
        store_Back_def load_FirstUse_def store_NextUse_def store_FirstUse_def)
qed

lemma use_chain_first_live:
  "use_chain h p us \<Longrightarrow> p = 0 \<or> operands h p \<noteq> None"
  by (cases us) (auto split: option.splits)

lemma Operand_ctor_chains:
  assumes I: "\<forall>v vb. valuebases h v = Some vb \<longrightarrow> use_chain h (FirstUse vb) (U v)"
    and fresh: "operands h this = None" and nz: "this \<noteq> 0"
    and v: "valuebases h (getDef tv) = Some vb0"
  shows "\<exists>h'. Operand_ctor h this owner tv = Inr h' \<and>
           (\<forall>v vb. valuebases h' v = Some vb \<longrightarrow>
                use_chain h' (FirstUse vb) ((U(getDef tv := this # U (getDef tv))) v)) \<and>
           dom (valuebases h') = dom (valuebases h) \<and>
           dom (operands h') = insert this (dom (operands h)) \<and>
           (\<forall>q. map_option TheValue (operands h' q) =
                  (if q = this then Some tv else map_option TheValue (operands h q)))"
proof -
  from I v have c0: "use_chain h (FirstUse vb0) (U (getDef tv))" by blast
  from Operand_ctor_effect [OF fresh v use_chain_first_live [OF c0], of owner]
  obtain h' where ctor: "Operand_ctor h this owner tv = Inr h'"
    and vals: "valuebases h' = (valuebases h)(getDef tv \<mapsto> vb0\<lparr>FirstUse := this\<rparr>)"
    and dom_ops: "dom (operands h') = insert this (dom (operands h))"
    and nexts: "\<forall>q. map_option NextUse (operands h' q) =
                  (if q = this then Some (FirstUse vb0) else map_option NextUse (operands h q))"
    and tvs: "\<forall>q. map_option TheValue (operands h' q) =
                  (if q = this then Some tv else map_option TheValue (operands h q))"
    by blast
  have same: "use_chain h' p us = use_chain h p us" if "use_chain h p us" for p us
  proof (rule use_chain_cong)
    from that fresh have "this \<notin> set us" by (auto dest: use_chain_live)
    with nexts show "\<forall>q\<in>set us. map_option NextUse (operands h' q) = map_option NextUse (operands h q)"
      by auto
  qed
  have chains: "use_chain h' (FirstUse vb) ((U(getDef tv := this # U (getDef tv))) w)"
    if w: "valuebases h' w = Some vb" for w vb
  proof (cases "w = getDef tv")
    case True
    with w vals have vb: "FirstUse vb = this" by auto
    from nexts obtain x where x: "operands h' this = Some x" "NextUse x = FirstUse vb0"
      by (metis (full_types) map_option_eq_Some)
    from same [OF c0] c0 have "use_chain h' (FirstUse vb0) (U (getDef tv))" by simp
    with True vb x nz show ?thesis by simp
  next
    case False
    with w vals have "valuebases h w = Some vb" by auto
    with I have "use_chain h (FirstUse vb) (U w)" by blast
    with same [OF this] False show ?thesis by simp
  qed
  from vals v have "dom (valuebases h') = dom (valuebases h)" by auto
  with ctor chains dom_ops tvs show ?thesis by blast
qed

lemma construct_operands_chains:
  assumes "\<forall>v vb. valuebases h v = Some vb \<longrightarrow> use_chain h (FirstUse vb) (U v)"
    and "distinct (map fst cs)"
    and "\<forall>c\<in>set cs. operands h (fst c) = None \<and> fst c \<noteq> 0 \<and>
            valuebases h (getDef (snd (snd c))) \<noteq> None"
  shows "\<exists>h'. construct_operands h cs = Inr h' \<and>
           (\<forall>v vb. valuebases h' v = Some vb \<longrightarrow>
                use_chain h' (FirstUse vb)
                  (rev (map fst (filter (\<lambda>c. getDef (snd (snd c)) = v) cs)) @ U v)) \<and>
           dom (valuebases h') = dom (valuebases h) \<and>
           (\<forall>c\<in>set cs. map_option TheValue (operands h' (fst c)) = Some (snd (snd c))) \<and>
           (\<forall>q. q \<notin> fst ` set cs \<longrightarrow>
                map_option TheValue (operands h' q) = map_option TheValue (operands h q))"
  using assms
proof (induction cs arbitrary: h U)
  case Nil
  then show ?case by simp
next
  case (Cons c cs)
  obtain this owner tv where c: "c = (this, owner, tv)" by (cases c) auto
  from Cons.prems(3) c obtain vb0 where fresh: "operands h this = None" and nz: "this \<noteq> 0"
    and v: "valuebases h (getDef tv) = Some vb0" by auto
  let ?U = "U(getDef tv := this # U (getDef tv))"
  from Operand_ctor_chains [OF Cons.prems(1) fresh nz v, of owner]
  obtain h1 where ctor: "Operand_ctor h this owner tv = Inr h1"
    and I1: "\<forall>v vb. valuebases h1 v = Some vb \<longrightarrow> use_chain h1 (FirstUse vb) (?U v)"
    and dv: "dom (valuebases h1) = dom (valuebases h)"
    and dops: "dom (operands h1) = insert this (dom (operands h))"
    and tvs: "\<forall>q. map_option TheValue (operands h1 q) =
                  (if q = this then Some tv else map_option TheValue (operands h q))"
    by blast
  from Cons.prems(2) c have d: "distinct (map fst cs)" and notin: "this \<notin> fst ` set cs" by auto
  have pre: "\<forall>c\<in>set cs. operands h1 (fst c) = None \<and> fst c \<noteq> 0 \<and>
            valuebases h1 (getDef (snd (snd c))) \<noteq> None"
  proof
    fix c' assume c': "c' \<in> set cs"
    with Cons.prems(3) have a: "operands h (fst c') = None" "fst c' \<noteq> 0"
      "valuebases h (getDef (snd (snd c'))) \<noteq> None" by auto
    from c' notin have "fst c' \<noteq> this" by auto
    with a(1) dops have "operands h1 (fst c') = None" by (auto simp: domIff)
    moreover from a(3) dv have "valuebases h1 (getDef (snd (snd c'))) \<noteq> None"
      by (auto simp: domIff)
    ultimately show "operands h1 (fst c') = None \<and> fst c' \<noteq> 0 \<and>
            valuebases h1 (getDef (snd (snd c'))) \<noteq> None" using a(2) by simp
  qed
  from Cons.IH [OF I1 d pre]
  obtain h' where run: "construct_operands h1 cs = Inr h'"
    and I': "\<forall>v vb. valuebases h' v = Some vb \<longrightarrow>
                use_chain h' (FirstUse vb)
                  (rev (map fst (filter (\<lambda>c. getDef (snd (snd c)) = v) cs)) @ ?U v)"
    and dv': "dom (valuebases h') = dom (valuebases h1)"
    and tv_in: "\<forall>c\<in>set cs. map_option TheValue (operands h' (fst c)) = Some (snd (snd c))"
    and tv_out: "\<forall>q. q \<notin> fst ` set cs \<longrightarrow>
                map_option TheValue (operands h' q) = map_option TheValue (operands h1 q)"
    by blast
  have 1: "construct_operands h (c # cs) = Inr h'"
    by (simp add: c ctor run bindE_def)
  have 2: "\<forall>v vb. valuebases h' v = Some vb \<longrightarrow>
                use_chain h' (FirstUse vb)
                  (rev (map fst (filter (\<lambda>c. getDef (snd (snd c)) = v) (c # cs))) @ U v)"
  proof (intro allI impI)
    fix v vb assume "valuebases h' v = Some vb"
    with I' have "use_chain h' (FirstUse vb)
        (rev (map fst (filter (\<lambda>c. getDef (snd (snd c)) = v) cs)) @ ?U v)" by blast
    then show "use_chain h' (FirstUse vb)
        (rev (map fst (filter (\<lambda>c. getDef (snd (snd c)) = v) (c # cs))) @ U v)"
      by (cases "v = getDef tv") (simp_all add: c)
  qed
  have 3: "\<forall>c'\<in>set (c # cs). map_option TheValue (operands h' (fst c')) = Some (snd (snd c'))"
    using tv_in tv_out notin tvs by (auto simp: c)
  have 4: "\<forall>q. q \<notin> fst ` set (c # cs) \<longrightarrow>
                map_option TheValue (operands h' q) = map_option TheValue (operands h q)"
    using tv_out tvs by (auto simp: c)
  from 1 2 3 4 dv dv' show ?case by auto
qed

lemma targets_of_constructed:
  assumes "\<forall>c\<in>set cs. map_option TheValue (operands h (fst c)) = Some (snd (snd c))"
  shows "filter (targets_result h r) (rev (map fst (filter A cs))) =
         rev (map fst (filter (\<lambda>c. A c \<and> getResultNumber (snd (snd c)) = r) cs))"
proof -
  have t: "targets_result h r (fst c) = (getResultNumber (snd (snd c)) = r)" if "c \<in> set cs" for c
    using assms that by (auto simp: targets_result_alt split: option.splits)
  have "filter (targets_result h r) (map fst (filter A cs)) =
        map fst (filter (\<lambda>c. A c \<and> getResultNumber (snd (snd c)) = r) cs)"
    using t by (induction cs) auto
  then show ?thesis by (simp add: rev_filter [symmetric])
qed

text \<open>
  C4: start from values without uses and construct operands in place, at distinct,
  aligned, non-null addresses, each on a live value.  The constructions succeed.  The walk
  over all uses of a value then yields the operands on that value, latest first; the
  walk filtered on the handle's result number yields exactly those operands of the
  unfiltered walk whose \<open>get().getResultNumber()\<close> is that number, in the same order,
  that is, the operands constructed on this very result, latest first.
\<close>

theorem filtered_uses_after_construction:
  assumes "operands h0 = Map.empty"
    and "\<forall>v vb. valuebases h0 v = Some vb \<longrightarrow> FirstUse vb = 0"
    and "distinct (map fst cs)"
    and "\<forall>(this, owner, tv)\<in>set cs.
            this \<noteq> 0 \<and> ptr_aligned this \<and> valuebases h0 (getDef tv) \<noteq> None"
    and "valuebases h0 (getDef V) \<noteq> None"
  shows "\<exists>h us. construct_operands h0 cs = Inr h \<and>
           us = rev (map fst (filter (\<lambda>(this, owner, tv). getDef tv = getDef V) cs)) \<and>
           ValueBase_getUses h (getDef V) = Some (Inr us) \<and>
           SILValue_getUses h V =
             Some (Inr (filter (targets_result h (getResultNumber V)) us)) \<and>
           filter (targets_result h (getResultNumber V)) us =
             rev (map fst (filter (\<lambda>(this, owner, tv).
                    getDef tv = getDef V \<and> getResultNumber tv = getResultNumber V) cs))"
proof -
  have I0: "\<forall>v vb. valuebases h0 v = Some vb \<longrightarrow> use_chain h0 (FirstUse vb) ((\<lambda>_. []) v)"
    using assms(2) by simp
  have pre: "\<forall>c\<in>set cs. operands h0 (fst c) = None \<and> fst c \<noteq> 0 \<and>
            valuebases h0 (getDef (snd (snd c))) \<noteq> None"
    using assms(1,4) by auto
  from construct_operands_chains [OF I0 assms(3) pre]
  obtain h where run: "construct_operands h0 cs = Inr h"
    and I: "\<forall>v vb. valuebases h v = Some vb \<longrightarrow>
                use_chain h (FirstUse vb)
                  (rev (map fst (filter (\<lambda>c. getDef (snd (snd c)) = v) cs)) @ [])"
    and dv: "dom (valuebases h) = dom (valuebases h0)"
    and tvs: "\<forall>c\<in>set cs. map_option TheValue (operands h (fst c)) = Some (snd (snd c))"
    by blast
  let ?A = "\<lambda>c. getDef (snd (snd c)) = getDef V"
  let ?us = "rev (map fst (filter ?A cs))"
  from assms(5) dv obtain vb where vb: "valuebases h (getDef V) = Some vb"
    by (auto simp: domIff set_eq_iff)
  with I have ch: "use_chain h (FirstUse vb) ?us" by fastforce
  have al: "\<forall>q\<in>set ?us. ptr_aligned q" using assms(4) by auto
  have A: "(\<lambda>(this, owner, tv). getDef tv = getDef V) = ?A" by auto
  have B: "(\<lambda>(this, owner, tv). getDef tv = getDef V \<and> getResultNumber tv = getResultNumber V) =
           (\<lambda>c. ?A c \<and> getResultNumber (snd (snd c)) = getResultNumber V)" by auto
  show ?thesis
    unfolding A B
    using run ValueBase_getUses_chain [OF vb ch] SILValue_getUses_chain [OF vb ch al]
      targets_of_constructed [OF tvs, of "getResultNumber V" ?A]
    by simp
qed

theorem filtered_uses_after_construction_witness:
  "construct_operands scenario_heap scenarioB_edges = Inr scenarioB_heap \<and>
   ValueBase_getUses scenarioB_heap 0x2000 = Some (Inr [0x140, 0x120, 0x100]) \<and>
   SILValue_getUses scenarioB_heap \<lparr>ValueAndResultNumber = 0x2000\<rparr> = Some (Inr [0x140, 0x100]) \<and>
   SILValue_getUses scenarioB_heap \<lparr>ValueAndResultNumber = 0x2002\<rparr> = Some (Inr [0x120])"
proof -
  have 1: "operands scenario_heap = Map.empty" by (simp add: scenario_heap_def)
  have 2: "\<forall>v vb. valuebases scenario_heap v = Some vb \<longrightarrow> FirstUse vb = 0"
    by (auto simp: scenario_heap_def split: if_splits)
  have 3: "distinct (map fst scenarioB_edges)" by (simp add: scenarioB_edges_def)
  have 4: "\<forall>(this, owner, tv)\<in>set scenarioB_edges.
            this \<noteq> 0 \<and> ptr_aligned this \<and> valuebases scenario_heap (getDef tv) \<noteq> None"
    by (simp add: scenarioB_edges_def scenario_heap_def pip_eval)
  have 5: "valuebases scenario_heap (getDef \<lparr>ValueAndResultNumber = 0x2000\<rparr>) \<noteq> None"
    and 6: "valuebases scenario_heap (getDef \<lparr>ValueAndResultNumber = 0x2002\<rparr>) \<noteq> None"
    by (simp_all add: scenario_heap_def pip_eval)
  have h: "h = scenarioB_heap" if "construct_operands scenario_heap scenarioB_edges = Inr h" for h
    using that by (simp add: scenarioB_heap_def)
  from filtered_uses_after_construction [OF 1 2 3 4 5] h
  have a: "construct_operands scenario_heap scenarioB_edges = Inr scenarioB_heap \<and>
    ValueBase_getUses scenarioB_heap 0x2000 = Some (Inr [0x140, 0x120, 0x100]) \<and>
    SILValue_getUses scenarioB_heap \<lparr>ValueAndResultNumber = 0x2000\<rparr> = Some (Inr [0x140, 0x100])"
    by (auto simp: scenarioB_edges_def pip_eval)
  from filtered_uses_after_construction [OF 1 2 3 4 6] h
  have b: "SILValue_getUses scenarioB_heap \<lparr>ValueAndResultNumber = 0x2002\<rparr> = Some (Inr [0x120])"
    by (auto simp: scenarioB_edges_def pip_eval)
  from a b show ?thesis by simp
qed

section \<open>Emptiness of the uses of one result\<close>

text \<open>
  C10: for a handle on a live value whose uses form a chain of aligned operands,
  \<open>SILValue::use_empty()\<close> is true iff no operand on the chain targets the handle's
  result number; and there is a heap and a handle where it is true although
  \<open>ValueBase::use_empty()\<close> on the same value is false.
\<close>

theorem SILValue_use_empty_filtered:
  "(valuebases h (getDef V) = Some vb \<and> use_chain h (FirstUse vb) us \<and>
      (\<forall>q\<in>set us. ptr_aligned q) \<longrightarrow>
      SILValue_use_empty h V =
        Some (Inr (\<forall>q\<in>set us. \<not> targets_result h (getResultNumber V) q))) \<and>
   (\<exists>h V. SILValue_use_empty h V = Some (Inr True) \<and>
           ValueBase_use_empty h (getDef V) = Inr False)"
proof
  show "valuebases h (getDef V) = Some vb \<and> use_chain h (FirstUse vb) us \<and>
      (\<forall>q\<in>set us. ptr_aligned q) \<longrightarrow>
      SILValue_use_empty h V =
        Some (Inr (\<forall>q\<in>set us. \<not> targets_result h (getResultNumber V) q))"
    by (auto simp: SILValue_use_empty_chain)
next
  have "SILValue_use_empty result1_only_heap \<lparr>ValueAndResultNumber = 0x2000\<rparr> = Some (Inr True) \<and>
        ValueBase_use_empty result1_only_heap (getDef \<lparr>ValueAndResultNumber = 0x2000\<rparr>) = Inr False"
    by (simp add: scenario_eval heap_eval iter_eval pip_eval)
  then show "\<exists>h V. SILValue_use_empty h V = Some (Inr True) \<and>
           ValueBase_use_empty h (getDef V) = Inr False"
    by blast
qed

theorem SILValue_use_empty_filtered_witness:
  "valuebases scenarioB_heap (getDef \<lparr>ValueAndResultNumber = 0x2002\<rparr>)
     = Some \<lparr>FirstUse = 0x140\<rparr> \<and>
   use_chain scenarioB_heap 0x140 [0x140, 0x120, 0x100] \<and>
   ptr_aligned 0x140 \<and> ptr_aligned 0x120 \<and> ptr_aligned 0x100 \<and>
   SILValue_use_empty scenarioB_heap \<lparr>ValueAndResultNumber = 0x2002\<rparr> = Some (Inr False) \<and>
   valuebases result1_only_heap (getDef \<lparr>ValueAndResultNumber = 0x2000\<rparr>)
     = Some \<lparr>FirstUse = 0x120\<rparr> \<and>
   use_chain result1_only_heap 0x120 [0x120] \<and>
   SILValue_use_empty result1_only_heap \<lparr>ValueAndResultNumber = 0x2000\<rparr> = Some (Inr True) \<and>
   ValueBase_use_empty result1_only_heap 0x2000 = Inr False"
proof -
  have 1: "valuebases scenarioB_heap (getDef \<lparr>ValueAndResultNumber = 0x2002\<rparr>)
             = Some \<lparr>FirstUse = 0x140\<rparr>"
    and 2: "use_chain scenarioB_heap (FirstUse \<lparr>FirstUse = 0x140\<rparr>) [0x140, 0x120, 0x100]"
    and 3: "\<forall>q\<in>set [0x140, 0x120, 0x100]. ptr_aligned q"
    by (simp_all add: scenario_eval heap_eval pip_eval)
  have 4: "valuebases result1_only_heap (getDef \<lparr>ValueAndResultNumber = 0x2000\<rparr>)
             = Some \<lparr>FirstUse = 0x120\<rparr>"
    and 5: "use_chain result1_only_heap (FirstUse \<lparr>FirstUse = 0x120\<rparr>) [0x120]"
    and 6: "\<forall>q\<in>set [0x120]. ptr_aligned q"
    and 7: "ValueBase_use_empty result1_only_heap 0x2000 = Inr False"
    by (simp_all add: scenario_eval heap_eval pip_eval)
  have t1: "\<not> (\<forall>q\<in>set [0x140, 0x120, 0x100].
               \<not> targets_result scenarioB_heap (getResultNumber \<lparr>ValueAndResultNumber = 0x2002\<rparr>) q)"
    and t2: "\<forall>q\<in>set [0x120].
               \<not> targets_result result1_only_heap (getResultNumber \<lparr>ValueAndResultNumber = 0x2000\<rparr>) q"
    by (simp_all add: targets_result_alt scenario_eval heap_eval pip_eval)
  from SILValue_use_empty_filtered
         [of scenarioB_heap "\<lparr>ValueAndResultNumber = 0x2002\<rparr>" "\<lparr>FirstUse = 0x140\<rparr>"
             "[0x140, 0x120, 0x100]"] 1 2 3 t1
  have a: "SILValue_use_empty scenarioB_heap \<lparr>ValueAndResultNumber = 0x2002\<rparr> = Some (Inr False)"
    by simp
  from SILValue_use_empty_filtered
         [of result1_only_heap "\<lparr>ValueAndResultNumber = 0x2000\<rparr>" "\<lparr>FirstUse = 0x120\<rparr>"
             "[0x120]"] 4 5 6 t2
  have b: "SILValue_use_empty result1_only_heap \<lparr>ValueAndResultNumber = 0x2000\<rparr> = Some (Inr True)"
    by simp
  from 1 2 3 4 5 7 a b show ?thesis by simp
qed

end
